theory Spec2Isabelle
  imports Main
begin

text \<open>
  The text functions of jrnl's module \<^verbatim>\<open>jrnl/util.py\<close>: \<^verbatim>\<open>split_title\<close>, \<^verbatim>\<open>colorize\<close>,
  \<^verbatim>\<open>highlight_tags_with_background_color\<close> and \<^verbatim>\<open>slugify\<close>, with the part of Python's
  \<^verbatim>\<open>re\<close> and \<^verbatim>\<open>str\<close> they use, followed by what the specification says of them and
  the proofs.
\<close>

section \<open>Text and character classes\<close>

text \<open>
  A Python \<^verbatim>\<open>str\<close> is a sequence of Unicode code points.  A code point is a natural
  number and a string is a list of them; \<open>lit\<close> writes an ASCII literal.
\<close>

type_synonym cp = nat

type_synonym str = "cp list"

definition lit :: "string \<Rightarrow> str" where
  "lit s = map of_char s"

text \<open>
  The characters for which \<^verbatim>\<open>str.isspace\<close> holds (bidirectional type WS, B or S, or
  category Zs): U+0009 to U+000D, U+001C to U+0020, U+0085, U+00A0, U+1680, U+2000 to
  U+200A, U+2028, U+2029, U+202F, U+205F and U+3000.  \<^verbatim>\<open>str.strip\<close>, \<^verbatim>\<open>str.lstrip\<close> and
  the class \<^verbatim>\<open>\s\<close> of a \<^verbatim>\<open>str\<close> pattern all use this set.
\<close>

definition is_space :: "cp \<Rightarrow> bool" where
  "is_space c \<longleftrightarrow>
     (9 \<le> c \<and> c \<le> 13) \<or> (28 \<le> c \<and> c \<le> 32) \<or> c = 133 \<or> c = 160 \<or> c = 5760 \<or>
     (8192 \<le> c \<and> c \<le> 8202) \<or> c = 8232 \<or> c = 8233 \<or> c = 8239 \<or> c = 8287 \<or> c = 12288"

definition lstrip :: "str \<Rightarrow> str" where
  "lstrip s = dropWhile is_space s"

definition rstrip :: "str \<Rightarrow> str" where
  "rstrip s = rev (dropWhile is_space (rev s))"

definition strip :: "str \<Rightarrow> str" where
  "strip s = rstrip (lstrip s)"

section \<open>The fragment of regular expressions the module uses\<close>

text \<open>
  Every pattern of the module is a sequence of character classes, each taken once, or
  under \<^verbatim>\<open>?\<close>, \<^verbatim>\<open>*\<close> or \<^verbatim>\<open>+\<close> (all greedy).  \<open>candidates\<close> lists the numbers of
  characters an item may take, in the order the backtracking matcher tries them;
  \<open>match_at\<close> is the length of the match that starts at the head of the text, the
  first one found in that order.
\<close>

datatype quant = One | Opt | Star | Plus

type_synonym item = "(cp \<Rightarrow> bool) \<times> quant"

type_synonym regex = "item list"

fun candidates :: "(cp \<Rightarrow> bool) \<Rightarrow> quant \<Rightarrow> str \<Rightarrow> nat list" where
  "candidates P One s = (case s of [] \<Rightarrow> [] | c # _ \<Rightarrow> if P c then [1] else [])"
| "candidates P Opt s = (case s of [] \<Rightarrow> [0] | c # _ \<Rightarrow> if P c then [1, 0] else [0])"
| "candidates P Star s = rev [0 ..< Suc (length (takeWhile P s))]"
| "candidates P Plus s = rev [1 ..< Suc (length (takeWhile P s))]"

fun first_some :: "'a option list \<Rightarrow> 'a option" where
  "first_some [] = None"
| "first_some (None # xs) = first_some xs"
| "first_some (Some x # xs) = Some x"

fun match_at :: "regex \<Rightarrow> str \<Rightarrow> nat option" where
  "match_at [] s = Some 0"
| "match_at ((P, q) # r) s =
     first_some (map (\<lambda>k. map_option (\<lambda>n. k + n) (match_at r (drop k s))) (candidates P q s))"

text \<open>\<^verbatim>\<open>pattern.search\<close>: the leftmost position with a match, as (start, end).\<close>

fun search_from :: "regex \<Rightarrow> nat \<Rightarrow> str \<Rightarrow> (nat \<times> nat) option" where
  "search_from r i [] = (case match_at r [] of None \<Rightarrow> None | Some n \<Rightarrow> Some (i, i + n))"
| "search_from r i (c # cs) =
     (case match_at r (c # cs) of
        None \<Rightarrow> search_from r (Suc i) cs
      | Some n \<Rightarrow> Some (i, i + n))"

definition search :: "regex \<Rightarrow> str \<Rightarrow> (nat \<times> nat) option" where
  "search r s = search_from r 0 s"

subsection \<open>The language of a pattern\<close>

text \<open>
  The language of a pattern, stated without reference to the matcher: \<open>item_ok\<close> says
  which words one item accepts, \<open>in_lang\<close> cuts a word into one piece for each item.
\<close>

fun item_ok :: "(cp \<Rightarrow> bool) \<Rightarrow> quant \<Rightarrow> str \<Rightarrow> bool" where
  "item_ok P One w = (length w = 1 \<and> list_all P w)"
| "item_ok P Opt w = (length w \<le> 1 \<and> list_all P w)"
| "item_ok P Star w = list_all P w"
| "item_ok P Plus w = (w \<noteq> [] \<and> list_all P w)"

fun in_lang :: "regex \<Rightarrow> str \<Rightarrow> bool" where
  "in_lang [] w = (w = [])"
| "in_lang ((P, q) # r) w =
     list_ex (\<lambda>k. item_ok P q (take k w) \<and> in_lang r (drop k w)) [0 ..< Suc (length w)]"

subsection \<open>A match lies within the text\<close>

text \<open>The scanner below terminates because a match ends inside the text it was found in.\<close>

lemma in_lang_Cons:
  "in_lang ((P, q) # r) w \<longleftrightarrow>
     (\<exists>k \<le> length w. item_ok P q (take k w) \<and> in_lang r (drop k w))"
  unfolding in_lang.simps list_ex_iff set_upt Bex_def
  by (auto simp: less_Suc_eq_le)

declare in_lang.simps(2) [simp del]

lemma first_some_Some: "first_some xs = Some x \<Longrightarrow> Some x \<in> set xs"
  by (induction xs rule: first_some.induct) auto

lemma takeWhile_prefix_all:
  "k \<le> length (takeWhile P s) \<longleftrightarrow> k \<le> length s \<and> list_all P (take k s)"
proof (induction s arbitrary: k)
  case Nil
  then show ?case by simp
next
  case (Cons c s)
  then show ?case by (cases k) auto
qed

lemma candidates_iff:
  "k \<in> set (candidates P q s) \<longleftrightarrow> k \<le> length s \<and> item_ok P q (take k s)"
proof (cases q)
  case One
  then show ?thesis by (cases s; cases k) (auto simp: min_def)
next
  case Opt
  then show ?thesis by (cases s; cases k) (auto simp: min_def)
next
  case Star
  then show ?thesis using takeWhile_prefix_all [of k P s] by auto
next
  case Plus
  then show ?thesis using takeWhile_prefix_all [of k P s] by (cases k) auto
qed

lemma match_at_sound:
  "match_at r s = Some n \<Longrightarrow> n \<le> length s \<and> in_lang r (take n s)"
proof (induction r arbitrary: s n)
  case Nil
  then show ?case by simp
next
  case (Cons it r)
  obtain P q where it: "it = (P, q)" by (cases it)
  from Cons.prems it
  have "Some n \<in> set (map (\<lambda>k. map_option (\<lambda>n. k + n) (match_at r (drop k s))) (candidates P q s))"
    by (auto dest: first_some_Some)
  then obtain k where k: "k \<in> set (candidates P q s)"
    and km: "Some n = map_option (\<lambda>n. k + n) (match_at r (drop k s))"
    by auto
  then obtain m where m: "match_at r (drop k s) = Some m" and n: "n = k + m"
    by (cases "match_at r (drop k s)") auto
  from k have ks: "k \<le> length s" and ok: "item_ok P q (take k s)"
    by (simp_all add: candidates_iff)
  from Cons.IH [OF m] have ml: "m \<le> length s - k" and lang: "in_lang r (take m (drop k s))"
    by simp_all
  have "take k (take n s) = take k s" using n by (simp add: min_def)
  moreover have "drop k (take n s) = take m (drop k s)" using n by (simp add: drop_take)
  moreover have "k \<le> length (take n s)" using n ks ml by simp
  ultimately show ?case using it ok lang n ks ml
    by (auto simp: in_lang_Cons intro!: exI [of _ k])
qed

lemma search_from_Some:
  "search_from r i s = Some (b, e) \<Longrightarrow>
     \<exists>k n. b = i + k \<and> e = b + n \<and> k \<le> length s \<and> match_at r (drop k s) = Some n \<and>
       (\<forall>j < k. match_at r (drop j s) = None)"
proof (induction s arbitrary: i)
  case Nil
  then show ?case by (auto split: option.splits)
next
  case (Cons c cs)
  show ?case
  proof (cases "match_at r (c # cs)")
    case None
    with Cons.prems have "search_from r (Suc i) cs = Some (b, e)" by simp
    from Cons.IH [OF this] obtain k n where kn: "b = Suc i + k" "e = b + n" "k \<le> length cs"
      "match_at r (drop k cs) = Some n" "\<forall>j < k. match_at r (drop j cs) = None"
      by blast
    have "\<forall>j < Suc k. match_at r (drop j (c # cs)) = None"
      using None kn(5) by (auto simp: less_Suc_eq_0_disj)
    with kn show ?thesis by (intro exI [of _ "Suc k"] exI [of _ n]) simp
  next
    case (Some n)
    with Cons.prems show ?thesis by (intro exI [of _ 0] exI [of _ n]) auto
  qed
qed

lemma search_bounds:
  assumes "search r s = Some (b, e)"
  shows "b \<le> e \<and> e \<le> length s"
proof -
  from assms obtain k n where "b = k" "e = b + n" "k \<le> length s" "match_at r (drop k s) = Some n"
    unfolding search_def by (auto dest: search_from_Some)
  moreover from this have "n \<le> length (drop k s)" using match_at_sound by blast
  ultimately show ?thesis by simp
qed

section \<open>split_title\<close>

text \<open>
  \<^verbatim>\<open>SENTENCE_SPLITTER = re.compile(r"""(
      [.!?\u203C\u203D\u2047\u2048\u2049\u3002\uFE52\uFE57\uFF01\uFF0E\uFF1F\uFF61]
      [\'\u2019\"\u201D]?
      [\]\)]*
      \s+
  )""", re.VERBOSE)
  SENTENCE_SPLITTER_ONLY_NEWLINE = re.compile("\n")\<close>
\<close>

text \<open>The classes of \<^verbatim>\<open>SENTENCE_SPLITTER\<close>: sentence terminals, right quotes, closing brackets.\<close>

definition sentence_terminal :: "cp \<Rightarrow> bool" where
  "sentence_terminal c \<longleftrightarrow>
     c \<in> {46, 33, 63, 8252, 8253, 8263, 8264, 8265, 12290, 65106, 65111, 65281, 65294, 65311, 65377}"

definition right_quote :: "cp \<Rightarrow> bool" where
  "right_quote c \<longleftrightarrow> c \<in> {39, 8217, 34, 8221}"

definition closing_bracket :: "cp \<Rightarrow> bool" where
  "closing_bracket c \<longleftrightarrow> c \<in> {93, 41}"

definition SENTENCE_SPLITTER :: regex where
  "SENTENCE_SPLITTER =
     [(sentence_terminal, One), (right_quote, Opt), (closing_bracket, Star), (is_space, Plus)]"

definition SENTENCE_SPLITTER_ONLY_NEWLINE :: regex where
  "SENTENCE_SPLITTER_ONLY_NEWLINE = [(\<lambda>c. c = 10, One)]"

text \<open>
  \<^verbatim>\<open>def split_title(text):
      sep = SENTENCE_SPLITTER_ONLY_NEWLINE.search(text.lstrip())
      if not sep:
          sep = SENTENCE_SPLITTER.search(text)
          if not sep:
              return text, ""
      return text[: sep.end()].strip(), text[sep.end() :].strip()\<close>
  A match object is always true, so \<^verbatim>\<open>not sep\<close> holds exactly when the search found
  nothing.  The slices never leave the text: \<^verbatim>\<open>sep.end()\<close> is at most its length.
\<close>

definition split_title :: "str \<Rightarrow> str \<times> str" where
  "split_title text =
     (case search SENTENCE_SPLITTER_ONLY_NEWLINE (lstrip text) of
        Some (b, e) \<Rightarrow> (strip (take e text), strip (drop e text))
      | None \<Rightarrow>
          (case search SENTENCE_SPLITTER text of
             None \<Rightarrow> (text, [])
           | Some (b, e) \<Rightarrow> (strip (take e text), strip (drop e text))))"

section \<open>re.sub and re.split\<close>

text \<open>
  \<open>re_scan\<close> cuts a text at the successive matches of a pattern, as the scanner behind
  \<^verbatim>\<open>re.sub\<close> and \<^verbatim>\<open>re.split\<close> does: the text before each match, the match, and at last
  the rest.  After an empty match the scanner moves on by one character, which joins the
  next piece (the behaviour since Python 3.7).  \<open>re_sub\<close> replaces every match by a fixed
  text; \<open>re_split\<close> is \<^verbatim>\<open>re.split\<close> for a pattern that is one capturing group, so the
  matched texts stay in the list.
\<close>

datatype segment = Plain str | Matched str

function re_scan :: "regex \<Rightarrow> str \<Rightarrow> str \<Rightarrow> segment list" where
  "re_scan r acc s =
     (case search r s of
        None \<Rightarrow> [Plain (acc @ s)]
      | Some (b, e) \<Rightarrow>
          if b < e then
            Plain (acc @ take b s) # Matched (take (e - b) (drop b s)) # re_scan r [] (drop e s)
          else
            (case drop b s of
               [] \<Rightarrow> [Plain (acc @ take b s), Matched [], Plain []]
             | c # cs \<Rightarrow> Plain (acc @ take b s) # Matched [] # re_scan r [c] cs))"
  by pat_completeness auto

termination
proof (relation "measure (\<lambda>(r, acc, s). length s)")
  show "wf (measure (\<lambda>(r, acc, s). length s))" by simp
next
  fix r :: regex and acc s :: str and x2 b e
  assume "search r s = Some x2" "(b, e) = x2" "b < e"
  then have "search r s = Some (b, e)" by simp
  then have "b \<le> e \<and> e \<le> length s" by (rule search_bounds)
  with \<open>b < e\<close> show "((r, [], drop e s), r, acc, s) \<in> measure (\<lambda>(r, acc, s). length s)"
    by simp
next
  fix r :: regex and acc s :: str and x2 b e c cs
  assume "drop b s = c # cs"
  then have "length (drop b s) = Suc (length cs)" by simp
  then show "((r, [c], cs), r, acc, s) \<in> measure (\<lambda>(r, acc, s). length s)"
    by simp
qed

declare re_scan.simps [simp del]

definition seg_text :: "segment \<Rightarrow> str" where
  "seg_text g = (case g of Plain u \<Rightarrow> u | Matched m \<Rightarrow> m)"

definition re_sub :: "regex \<Rightarrow> str \<Rightarrow> str \<Rightarrow> str" where
  "re_sub r repl s = concat (map (\<lambda>g. case g of Plain u \<Rightarrow> u | Matched m \<Rightarrow> repl) (re_scan r [] s))"

definition re_split :: "regex \<Rightarrow> str \<Rightarrow> str list" where
  "re_split r s = map seg_text (re_scan r [] s)"

section \<open>The collaborators: Unicode tables and colorama\<close>

text \<open>
  \<^verbatim>\<open>unicodedata.normalize("NFKD", _)\<close>, \<^verbatim>\<open>str.lower\<close>, \<^verbatim>\<open>str.upper\<close> and
  \<^verbatim>\<open>str.isalnum\<close> (which decides the class \<^verbatim>\<open>\w\<close>) read the Unicode character database.
  The database is not part of the module; the functions are taken as parameters.
\<close>

record unicode_db =
  normalize_NFKD :: "str \<Rightarrow> str"
  str_lower :: "str \<Rightarrow> str"
  str_upper :: "str \<Rightarrow> str"
  isalnum :: "cp \<Rightarrow> bool"

definition is_word :: "unicode_db \<Rightarrow> cp \<Rightarrow> bool" where
  "is_word ud c \<longleftrightarrow> isalnum ud c \<or> c = 95"

text \<open>
  Of colorama the module reads \<^verbatim>\<open>getattr(colorama.Fore, name, None)\<close> (\<open>Fore\<close>) and the
  constants \<^verbatim>\<open>colorama.Fore.RESET\<close>, \<^verbatim>\<open>colorama.Style.BRIGHT\<close> and
  \<^verbatim>\<open>colorama.Style.RESET_ALL\<close>.
\<close>

record colorama =
  Fore :: "str \<Rightarrow> str option"
  Fore_RESET :: str
  Style_BRIGHT :: str
  Style_RESET_ALL :: str

text \<open>\<^verbatim>\<open>string.punctuation\<close> and \<^verbatim>\<open>string.whitespace\<close>.\<close>

definition punctuation :: str where
  "punctuation = [33 ..< 48] @ [58 ..< 65] @ [91 ..< 97] @ [123 ..< 127]"

definition whitespace :: str where
  "whitespace = [32, 9, 10, 13, 11, 12]"

section \<open>colorize\<close>

text \<open>
  \<^verbatim>\<open>def colorize(string, color, bold=False):
      color_escape = getattr(colorama.Fore, color.upper(), None)
      if not color_escape:
          return string
      elif not bold:
          return color_escape + string + colorama.Fore.RESET
      else:
          return colorama.Style.BRIGHT + color_escape + string + colorama.Style.RESET_ALL\<close>
  \<^verbatim>\<open>not color_escape\<close> holds for \<^verbatim>\<open>None\<close> and for the empty string.
\<close>

definition colorize :: "colorama \<Rightarrow> unicode_db \<Rightarrow> str \<Rightarrow> str \<Rightarrow> bool \<Rightarrow> str" where
  "colorize cm ud string color bold =
     (case Fore cm (str_upper ud color) of
        None \<Rightarrow> string
      | Some color_escape \<Rightarrow>
          if color_escape = [] then string
          else if \<not> bold then color_escape @ string @ Fore_RESET cm
          else Style_BRIGHT cm @ color_escape @ string @ Style_RESET_ALL cm)"

section \<open>highlight_tags_with_background_color\<close>

record config =
  highlight :: bool
  tagsymbols :: str
  colors_tags :: str

text \<open>
  An entry gives its journal's configuration and the method \<^verbatim>\<open>tag_regex\<close>.  The class
  of the entry is not part of the module, so the method is a field here.
\<close>

record entry =
  journal_config :: config
  tag_regex :: "str \<Rightarrow> regex"

datatype py_error = IndexError

text \<open>
  \<^verbatim>\<open>def colorized_text_generator(fragments):
      for part in fragments:
          if part and part[0] not in config["tagsymbols"]:
              yield (colorize(part, color, bold=is_title), part)
          elif part:
              yield (colorize(part, config["colors"]["tags"], bold=True), part)\<close>
  The tag symbols are a string; a character is \<^verbatim>\<open>in\<close> it when it occurs in it.
\<close>

fun colorized_text_generator ::
  "colorama \<Rightarrow> unicode_db \<Rightarrow> config \<Rightarrow> str \<Rightarrow> bool \<Rightarrow> str list \<Rightarrow> (str \<times> str) list" where
  "colorized_text_generator cm ud config color is_title [] = []"
| "colorized_text_generator cm ud config color is_title (part # fragments) =
     (if part \<noteq> [] \<and> hd part \<notin> set (tagsymbols config) then
        (colorize cm ud part color is_title, part)
          # colorized_text_generator cm ud config color is_title fragments
      else if part \<noteq> [] then
        (colorize cm ud part (colors_tags config) True, part)
          # colorized_text_generator cm ud config color is_title fragments
      else colorized_text_generator cm ud config color is_title fragments)"

text \<open>\<^verbatim>\<open>piece[0]\<close> raises IndexError on the empty string.\<close>

definition first_char :: "str \<Rightarrow> py_error + cp" where
  "first_char s = (case s of [] \<Rightarrow> Inl IndexError | c # _ \<Rightarrow> Inr c)"

definition endswith_newline :: "str \<Rightarrow> bool" where
  "endswith_newline s \<longleftrightarrow> s \<noteq> [] \<and> last s = 10"

text \<open>
  \<^verbatim>\<open>final_text = ""
  previous_piece = ""
  for colorized_piece, piece in colorized_text_generator(text_fragments):
      if (
          all(char in punctuation + whitespace for char in piece)
          or previous_piece.endswith("\n")
          or (previous_piece and previous_piece[0] in config["tagsymbols"])
          or piece[0] in config["tagsymbols"]
      ):
          final_text += colorized_piece
      else:
          final_text += " " + colorized_piece
      previous_piece = piece
  return final_text.lstrip()\<close>
  The four disjuncts of the condition are evaluated left to right, as \<^verbatim>\<open>or\<close> does:
  \<^verbatim>\<open>piece[0]\<close> is reached only when the first three are false.
\<close>

definition no_leading_space :: "config \<Rightarrow> str \<Rightarrow> str \<Rightarrow> py_error + bool" where
  "no_leading_space config previous_piece piece =
     (if list_all (\<lambda>char. char \<in> set (punctuation @ whitespace)) piece then Inr True
      else if endswith_newline previous_piece then Inr True
      else if previous_piece \<noteq> [] \<and> hd previous_piece \<in> set (tagsymbols config) then Inr True
      else (case first_char piece of
              Inl e \<Rightarrow> Inl e
            | Inr c \<Rightarrow> Inr (c \<in> set (tagsymbols config))))"

text \<open>The loop, with its state \<open>final_text\<close> and \<open>previous_piece\<close>.\<close>

fun reassemble :: "config \<Rightarrow> (str \<times> str) list \<Rightarrow> str \<Rightarrow> str \<Rightarrow> py_error + str" where
  "reassemble config [] final_text previous_piece = Inr final_text"
| "reassemble config ((colorized_piece, piece) # rest) final_text previous_piece =
     (case no_leading_space config previous_piece piece of
        Inl e \<Rightarrow> Inl e
      | Inr b \<Rightarrow>
          reassemble config rest
            (if b then final_text @ colorized_piece else final_text @ [32] @ colorized_piece)
            piece)"

text \<open>
  \<^verbatim>\<open>config = entry.journal.config
  if config["highlight"]:
      text_fragments = re.split(entry.tag_regex(config["tagsymbols"]), text)
      ...
      return final_text.lstrip()
  else:
      return text\<close>
  \<open>render_fragments\<close> is the highlighting branch from the fragments on: generator,
  loop and final lstrip.
\<close>

definition render_fragments ::
  "colorama \<Rightarrow> unicode_db \<Rightarrow> config \<Rightarrow> str \<Rightarrow> bool \<Rightarrow> str list \<Rightarrow> py_error + str" where
  "render_fragments cm ud config color is_title text_fragments =
     (case reassemble config
             (colorized_text_generator cm ud config color is_title text_fragments) [] [] of
        Inl e \<Rightarrow> Inl e
      | Inr final_text \<Rightarrow> Inr (lstrip final_text))"

definition highlight_tags_with_background_color ::
  "colorama \<Rightarrow> unicode_db \<Rightarrow> entry \<Rightarrow> str \<Rightarrow> str \<Rightarrow> bool \<Rightarrow> py_error + str" where
  "highlight_tags_with_background_color cm ud entry text color is_title =
     (let config = journal_config entry in
      if highlight config then
        render_fragments cm ud config color is_title
          (re_split (tag_regex entry (tagsymbols config)) text)
      else Inr text)"

section \<open>slugify\<close>

text \<open>
  \<^verbatim>\<open>def slugify(string):
      normalized_string = str(unicodedata.normalize("NFKD", string))
      no_punctuation = re.sub(r"[^\w\s-]", "", normalized_string).strip().lower()
      slug = re.sub(r"[-\s]+", "-", no_punctuation)
      return slug\<close>
\<close>

definition slugify :: "unicode_db \<Rightarrow> str \<Rightarrow> str" where
  "slugify ud string =
     (let normalized_string = normalize_NFKD ud string;
          no_punctuation =
            str_lower ud
              (strip (re_sub [(\<lambda>c. \<not> (is_word ud c \<or> is_space c \<or> c = 45), One)] []
                 normalized_string));
          slug = re_sub [(\<lambda>c. c = 45 \<or> is_space c, Plus)] [45] no_punctuation
      in slug)"

section \<open>The specification's side\<close>

subsection \<open>The sentence boundary\<close>

text \<open>
  The specification's sentence boundary at position \<open>i\<close>: a terminal punctuation
  character, optionally one closing quote, optionally closing brackets, then one or more
  whitespace characters.
\<close>

definition boundary_spec :: "str \<Rightarrow> nat \<Rightarrow> bool" where
  "boundary_spec text i \<longleftrightarrow>
     (\<exists>p q bs ws rest. drop i text = p # q @ bs @ ws @ rest \<and> sentence_terminal p \<and>
        (q = [] \<or> (\<exists>c. q = [c] \<and> right_quote c)) \<and> list_all closing_bracket bs \<and>
        ws \<noteq> [] \<and> list_all is_space ws)"

subsection \<open>Instances of the collaborators\<close>

text \<open>
  A small Unicode database (ASCII letters and digits, and the decomposition of U+00E9)
  and a colorama with two colours.  They show that the hypotheses of the theorems can be
  met and give the closed examples their values.
\<close>

definition ascii_db :: unicode_db where
  "ascii_db =
     \<lparr>normalize_NFKD = (\<lambda>s. concat (map (\<lambda>c. if c = 233 then [101, 769] else [c]) s)),
      str_lower = map (\<lambda>c. if 65 \<le> c \<and> c \<le> 90 then c + 32 else c),
      str_upper = map (\<lambda>c. if 97 \<le> c \<and> c \<le> 122 then c - 32 else c),
      isalnum = (\<lambda>c. (48 \<le> c \<and> c \<le> 57) \<or> (65 \<le> c \<and> c \<le> 90) \<or> (97 \<le> c \<and> c \<le> 122))\<rparr>"

definition example_colorama :: colorama where
  "example_colorama =
     \<lparr>Fore = (\<lambda>name. if name = lit ''RED'' then Some (27 # lit ''[31m'')
                     else if name = lit ''RESET'' then Some (27 # lit ''[39m'')
                     else None),
      Fore_RESET = 27 # lit ''[39m'',
      Style_BRIGHT = 27 # lit ''[1m'',
      Style_RESET_ALL = 27 # lit ''[0m''\<rparr>"

definition example_config :: config where
  "example_config = \<lparr>highlight = True, tagsymbols = lit ''@#'', colors_tags = lit ''none''\<rparr>"

subsection \<open>The pattern of tags and the specification's reassembly\<close>

text \<open>
  Modelled from the spec: the method \<^verbatim>\<open>Entry.tag_regex\<close> is not part of the sources.
  The specification has the pattern match a tag symbol followed by one or more
  characters that are neither whitespace nor punctuation other than hyphen and
  underscore, the whole match being one capturing group.
\<close>

definition tag_continuation :: "cp \<Rightarrow> bool" where
  "tag_continuation c \<longleftrightarrow> \<not> is_space c \<and> (c \<notin> set punctuation \<or> c = 45 \<or> c = 95)"

definition tag_regex_spec :: "str \<Rightarrow> regex" where
  "tag_regex_spec symbols = [(\<lambda>c. c \<in> set symbols, One), (tag_continuation, Plus)]"

text \<open>
  Steps 2 and 3 of the specification.  A fragment is coloured as a tag when its first
  character is a tag symbol, as plain text otherwise.  \<open>no_space_spec\<close> holds the four
  exceptions: the fragment is all punctuation and whitespace, the previous fragment ends
  with a newline, the previous fragment starts with a tag symbol, the fragment starts
  with a tag symbol.  \<open>joined_spec\<close> puts one space before every fragment outside the
  exceptions.
\<close>

definition colorized_fragment ::
  "colorama \<Rightarrow> unicode_db \<Rightarrow> config \<Rightarrow> str \<Rightarrow> bool \<Rightarrow> str \<Rightarrow> str" where
  "colorized_fragment cm ud config color is_title f =
     (if hd f \<in> set (tagsymbols config) then colorize cm ud f (colors_tags config) True
      else colorize cm ud f color is_title)"

definition no_space_spec :: "config \<Rightarrow> str option \<Rightarrow> str \<Rightarrow> bool" where
  "no_space_spec config previous f \<longleftrightarrow>
     list_all (\<lambda>c. c \<in> set punctuation \<or> c \<in> set whitespace) f \<or>
     (case previous of None \<Rightarrow> False | Some p \<Rightarrow> last p = 10) \<or>
     (case previous of None \<Rightarrow> False | Some p \<Rightarrow> hd p \<in> set (tagsymbols config)) \<or>
     hd f \<in> set (tagsymbols config)"

fun joined_spec :: "(str \<Rightarrow> str) \<Rightarrow> config \<Rightarrow> str option \<Rightarrow> str list \<Rightarrow> str" where
  "joined_spec col config previous [] = []"
| "joined_spec col config previous (f # fs) =
     (if no_space_spec config previous f then [] else [32]) @ col f
       @ joined_spec col config (Some f) fs"

subsection \<open>What the two substitutions compute\<close>

text \<open>
  \<open>collapse P repl\<close> replaces every maximal run of characters of the class \<open>P\<close> by
  \<open>repl\<close>: it is what substituting for the pattern \<^verbatim>\<open>[...]+\<close> computes.
\<close>

function collapse :: "(cp \<Rightarrow> bool) \<Rightarrow> str \<Rightarrow> str \<Rightarrow> str" where
  "collapse P repl [] = []"
| "collapse P repl (c # cs) =
     (if P c then repl @ collapse P repl (dropWhile P cs) else c # collapse P repl cs)"
  by pat_completeness auto

termination
  by (relation "measure (\<lambda>(P, repl, s). length s)")
    (auto simp: length_dropWhile_le le_imp_less_Suc)

subsection \<open>What idempotence needs of the Unicode tables\<close>

text \<open>
  A character is settled when normalisation and lowercasing leave it alone, and a slug
  character when it is the hyphen or a settled word character.  Idempotence rests on two
  properties of the tables: a text of slug characters is left alone by both functions;
  and lowercasing what the first substitution and strip keep of a normalised text gives
  whitespace and slug characters only.  \<open>unicode_hello\<close> holds what the tables say on
  the characters of the example.
\<close>

definition settled :: "unicode_db \<Rightarrow> cp \<Rightarrow> bool" where
  "settled ud c \<longleftrightarrow> normalize_NFKD ud [c] = [c] \<and> str_lower ud [c] = [c]"

definition slug_char :: "unicode_db \<Rightarrow> cp \<Rightarrow> bool" where
  "slug_char ud c \<longleftrightarrow> c = 45 \<or> (is_word ud c \<and> settled ud c)"

definition unicode_ok :: "unicode_db \<Rightarrow> bool" where
  "unicode_ok ud \<longleftrightarrow>
     (\<forall>s. list_all (slug_char ud) s \<longrightarrow> normalize_NFKD ud s = s \<and> str_lower ud s = s) \<and>
     (\<forall>x. list_all (\<lambda>c. is_space c \<or> slug_char ud c)
            (str_lower ud
               (strip (filter (\<lambda>c. is_word ud c \<or> is_space c \<or> c = 45) (normalize_NFKD ud x)))))"

definition hello :: str where
  "hello = [72, 233, 108, 108, 111, 44, 32, 87, 111, 114, 108, 100, 33]"

definition unicode_hello :: "unicode_db \<Rightarrow> bool" where
  "unicode_hello ud \<longleftrightarrow>
     normalize_NFKD ud hello = [72, 101, 769, 108, 108, 111, 44, 32, 87, 111, 114, 108, 100, 33] \<and>
     list_all (isalnum ud) (lit ''HelloWorld'') \<and>
     \<not> isalnum ud 769 \<and> \<not> isalnum ud 44 \<and> \<not> isalnum ud 33 \<and>
     str_lower ud (lit ''Hello World'') = lit ''hello world''"

section \<open>Facts about matching and searching\<close>

lemma first_some_None: "first_some xs = None \<longleftrightarrow> (\<forall>x \<in> set xs. x = None)"
  by (induction xs rule: first_some.induct) auto

lemma match_at_complete:
  "in_lang r w \<Longrightarrow> match_at r (w @ rest) \<noteq> None"
proof (induction r arbitrary: w rest)
  case Nil
  then show ?case by simp
next
  case (Cons it r)
  obtain P q where it: "it = (P, q)" by (cases it)
  from Cons.prems it obtain k where kw: "k \<le> length w"
    and ok: "item_ok P q (take k w)" and lang: "in_lang r (drop k w)"
    by (auto simp: in_lang_Cons)
  have "k \<in> set (candidates P q (w @ rest))" using kw ok by (simp add: candidates_iff)
  moreover have "match_at r (drop k (w @ rest)) \<noteq> None"
    using Cons.IH [OF lang, of rest] kw by simp
  ultimately show ?case using it
    by (auto simp: first_some_None)
qed

lemma in_lang_Cons_split:
  "in_lang ((P, q) # r) w \<longleftrightarrow> (\<exists>u v. w = u @ v \<and> item_ok P q u \<and> in_lang r v)"
proof
  assume "in_lang ((P, q) # r) w"
  then obtain k where "k \<le> length w" "item_ok P q (take k w)" "in_lang r (drop k w)"
    by (auto simp: in_lang_Cons)
  then have "w = take k w @ drop k w \<and> item_ok P q (take k w) \<and> in_lang r (drop k w)"
    by simp
  then show "\<exists>u v. w = u @ v \<and> item_ok P q u \<and> in_lang r v" by blast
next
  assume "\<exists>u v. w = u @ v \<and> item_ok P q u \<and> in_lang r v"
  then obtain u v where "w = u @ v" "item_ok P q u" "in_lang r v" by blast
  then have "length u \<le> length w \<and> item_ok P q (take (length u) w) \<and> in_lang r (drop (length u) w)"
    by simp
  then show "in_lang ((P, q) # r) w" unfolding in_lang_Cons by blast
qed

lemma item_ok_One: "item_ok P One u \<longleftrightarrow> (\<exists>c. u = [c] \<and> P c)"
  by (cases u) (auto simp: length_Suc_conv)

lemma item_ok_Opt: "item_ok P Opt u \<longleftrightarrow> u = [] \<or> (\<exists>c. u = [c] \<and> P c)"
  by (cases u) auto

lemma search_from_None:
  "search_from r i s = None \<longleftrightarrow> (\<forall>k \<le> length s. match_at r (drop k s) = None)"
proof (induction s arbitrary: i)
  case Nil
  then show ?case by (simp split: option.splits)
next
  case (Cons c cs)
  have "(\<forall>k \<le> length (c # cs). match_at r (drop k (c # cs)) = None) \<longleftrightarrow>
        match_at r (c # cs) = None \<and> (\<forall>k \<le> length cs. match_at r (drop k cs) = None)"
  proof (intro iffI conjI allI impI)
    assume a: "\<forall>k \<le> length (c # cs). match_at r (drop k (c # cs)) = None"
    from a [rule_format, of 0] show "match_at r (c # cs) = None" by simp
    fix k assume "k \<le> length cs"
    with a [rule_format, of "Suc k"] show "match_at r (drop k cs) = None" by simp
  next
    fix k
    assume a: "match_at r (c # cs) = None \<and> (\<forall>k \<le> length cs. match_at r (drop k cs) = None)"
      and k: "k \<le> length (c # cs)"
    then show "match_at r (drop k (c # cs)) = None" by (cases k) auto
  qed
  then show ?case using Cons.IH by (simp split: option.splits)
qed

lemma match_at_One:
  "match_at [(P, One)] s = (case s of [] \<Rightarrow> None | c # _ \<Rightarrow> if P c then Some 1 else None)"
  by (cases s) auto

lemma match_at_Plus:
  "match_at [(P, Plus)] s =
     (case s of [] \<Rightarrow> None | c # _ \<Rightarrow> if P c then Some (length (takeWhile P s)) else None)"
  by (cases s) auto

lemma search_from_single:
  assumes "\<And>t. match_at r t = (case t of [] \<Rightarrow> None | c # _ \<Rightarrow> if P c then Some (m t) else None)"
  shows "search_from r i s =
     (if \<exists>c \<in> set s. P c
      then Some (i + length (takeWhile (\<lambda>c. \<not> P c) s),
                 i + length (takeWhile (\<lambda>c. \<not> P c) s) + m (dropWhile (\<lambda>c. \<not> P c) s))
      else None)"
  by (induction s arbitrary: i) (auto simp: assms)

lemma search_single:
  assumes "\<And>t. match_at r t = (case t of [] \<Rightarrow> None | c # _ \<Rightarrow> if P c then Some (m t) else None)"
  shows "search r s =
     (if \<exists>c \<in> set s. P c
      then Some (length (takeWhile (\<lambda>c. \<not> P c) s),
                 length (takeWhile (\<lambda>c. \<not> P c) s) + m (dropWhile (\<lambda>c. \<not> P c) s))
      else None)"
  unfolding search_def using search_from_single [of r P m 0 s, OF assms] by simp

section \<open>Results on split_title\<close>

lemma in_lang_SENTENCE_SPLITTER:
  "in_lang SENTENCE_SPLITTER w \<longleftrightarrow>
     (\<exists>p q bs ws. w = p # q @ bs @ ws \<and> sentence_terminal p \<and>
        (q = [] \<or> (\<exists>c. q = [c] \<and> right_quote c)) \<and> list_all closing_bracket bs \<and>
        ws \<noteq> [] \<and> list_all is_space ws)"
proof
  assume "in_lang SENTENCE_SPLITTER w"
  then obtain u1 v1 where 1: "w = u1 @ v1" "item_ok sentence_terminal One u1"
    and "in_lang [(right_quote, Opt), (closing_bracket, Star), (is_space, Plus)] v1"
    unfolding SENTENCE_SPLITTER_def in_lang_Cons_split by blast
  then obtain u2 v2 where 2: "v1 = u2 @ v2" "item_ok right_quote Opt u2"
    and "in_lang [(closing_bracket, Star), (is_space, Plus)] v2"
    unfolding in_lang_Cons_split by blast
  then obtain u3 v3 where 3: "v2 = u3 @ v3" "item_ok closing_bracket Star u3"
    and "in_lang [(is_space, Plus)] v3"
    unfolding in_lang_Cons_split by blast
  then have 4: "item_ok is_space Plus v3"
    unfolding in_lang_Cons_split by auto
  from 1 obtain p where p: "u1 = [p]" "sentence_terminal p"
    unfolding item_ok_One by blast
  have "w = p # u2 @ u3 @ v3" using 1 2 3 p by simp
  moreover have "u2 = [] \<or> (\<exists>c. u2 = [c] \<and> right_quote c)"
    using 2 unfolding item_ok_Opt by blast
  moreover have "list_all closing_bracket u3" "v3 \<noteq> []" "list_all is_space v3"
    using 3 4 by simp_all
  ultimately show "\<exists>p q bs ws. w = p # q @ bs @ ws \<and> sentence_terminal p \<and>
        (q = [] \<or> (\<exists>c. q = [c] \<and> right_quote c)) \<and> list_all closing_bracket bs \<and>
        ws \<noteq> [] \<and> list_all is_space ws"
    using p by blast
next
  assume "\<exists>p q bs ws. w = p # q @ bs @ ws \<and> sentence_terminal p \<and>
        (q = [] \<or> (\<exists>c. q = [c] \<and> right_quote c)) \<and> list_all closing_bracket bs \<and>
        ws \<noteq> [] \<and> list_all is_space ws"
  then obtain p q bs ws where w0: "w = p # q @ bs @ ws" and p: "sentence_terminal p"
    and q: "q = [] \<or> (\<exists>c. q = [c] \<and> right_quote c)" and bs: "list_all closing_bracket bs"
    and ws: "ws \<noteq> []" "list_all is_space ws"
    by blast
  from w0 have w: "w = [p] @ q @ bs @ ws" by simp
  have "in_lang [(is_space, Plus)] ws"
    unfolding in_lang_Cons_split using ws by simp
  then have "in_lang [(closing_bracket, Star), (is_space, Plus)] (bs @ ws)"
    unfolding in_lang_Cons_split [of closing_bracket] using bs by auto
  then have "in_lang [(right_quote, Opt), (closing_bracket, Star), (is_space, Plus)] (q @ bs @ ws)"
    unfolding in_lang_Cons_split [of right_quote] using q item_ok_Opt [of right_quote q] by blast
  then show "in_lang SENTENCE_SPLITTER w"
    unfolding SENTENCE_SPLITTER_def w in_lang_Cons_split [of sentence_terminal]
    using p item_ok_One [of sentence_terminal "[p]"] by blast
qed

lemma boundary_match:
  "match_at SENTENCE_SPLITTER (drop i text) \<noteq> None \<longleftrightarrow> boundary_spec text i"
proof
  assume "match_at SENTENCE_SPLITTER (drop i text) \<noteq> None"
  then obtain n where "match_at SENTENCE_SPLITTER (drop i text) = Some n" by auto
  then have "in_lang SENTENCE_SPLITTER (take n (drop i text))"
    by (simp add: match_at_sound)
  then obtain p q bs ws where "take n (drop i text) = p # q @ bs @ ws" "sentence_terminal p"
    "q = [] \<or> (\<exists>c. q = [c] \<and> right_quote c)" "list_all closing_bracket bs"
    "ws \<noteq> []" "list_all is_space ws"
    unfolding in_lang_SENTENCE_SPLITTER by blast
  moreover from this have "drop i text = p # q @ bs @ ws @ drop n (drop i text)"
    using append_take_drop_id [of n "drop i text"] by simp
  ultimately show "boundary_spec text i" unfolding boundary_spec_def by blast
next
  assume "boundary_spec text i"
  then obtain p q bs ws rest where d0: "drop i text = p # q @ bs @ ws @ rest"
    and parts: "sentence_terminal p"
      "q = [] \<or> (\<exists>c. q = [c] \<and> right_quote c)" "list_all closing_bracket bs"
      "ws \<noteq> []" "list_all is_space ws"
    unfolding boundary_spec_def by blast
  from d0 have d: "drop i text = (p # q @ bs @ ws) @ rest" by simp
  from parts have "in_lang SENTENCE_SPLITTER (p # q @ bs @ ws)"
    unfolding in_lang_SENTENCE_SPLITTER by blast
  then show "match_at SENTENCE_SPLITTER (drop i text) \<noteq> None"
    unfolding d by (rule match_at_complete)
qed

lemma search_no_boundary:
  "search SENTENCE_SPLITTER text = None \<longleftrightarrow> (\<forall>i. \<not> boundary_spec text i)"
proof -
  have "\<not> boundary_spec text i" if "length text < i" for i
    using that by (simp add: boundary_spec_def)
  then have "(\<forall>i. \<not> boundary_spec text i) \<longleftrightarrow> (\<forall>i \<le> length text. \<not> boundary_spec text i)"
    by (meson not_le)
  then show ?thesis
    unfolding search_def search_from_None by (simp add: boundary_match [symmetric])
qed

lemma search_first_boundary:
  assumes "search SENTENCE_SPLITTER text = Some (b, e)"
  shows "boundary_spec text b \<and> (\<forall>j < b. \<not> boundary_spec text j) \<and> b < e \<and> e \<le> length text"
proof -
  from assms obtain n where n: "e = b + n" "b \<le> length text"
      "match_at SENTENCE_SPLITTER (drop b text) = Some n"
      "\<forall>j < b. match_at SENTENCE_SPLITTER (drop j text) = None"
    unfolding search_def by (auto dest: search_from_Some)
  from n(3) have "in_lang SENTENCE_SPLITTER (take n (drop b text))" "n \<le> length (drop b text)"
    using match_at_sound by blast+
  then have "0 < n" unfolding in_lang_SENTENCE_SPLITTER by (cases n) auto
  with n \<open>n \<le> length (drop b text)\<close> show ?thesis
    by (auto simp: boundary_match [symmetric])
qed

text \<open>
  The two paths of split_title in general: with a newline in the text stripped of its
  leading whitespace, the cut is one past the position the newline has there, taken in
  the unstripped text; with no newline and no boundary the text comes back as it is.
\<close>

lemma match_at_newline:
  "match_at SENTENCE_SPLITTER_ONLY_NEWLINE t =
     (case t of [] \<Rightarrow> None | c # _ \<Rightarrow> if c = 10 then Some 1 else None)"
  by (cases t) (auto simp: SENTENCE_SPLITTER_ONLY_NEWLINE_def)

lemma split_title_no_boundary:
  assumes "search SENTENCE_SPLITTER_ONLY_NEWLINE (lstrip text) = None"
    and "search SENTENCE_SPLITTER text = None"
  shows "split_title text = (text, [])"
  using assms by (simp add: split_title_def)

lemma split_title_newline:
  assumes "10 \<in> set (lstrip text)"
  shows "split_title text =
           (strip (take (Suc (length (takeWhile (\<lambda>c. c \<noteq> 10) (lstrip text)))) text),
            strip (drop (Suc (length (takeWhile (\<lambda>c. c \<noteq> 10) (lstrip text)))) text))"
  using assms
  by (simp add: split_title_def search_single [of _ "\<lambda>c. c = 10" "\<lambda>_. 1", OF match_at_newline])

lemmas split_title_eval =
  split_title_def lit_def lstrip_def rstrip_def strip_def search_def SENTENCE_SPLITTER_def
  SENTENCE_SPLITTER_ONLY_NEWLINE_def is_space_def sentence_terminal_def right_quote_def
  closing_bracket_def upt_rec

text \<open>
  Claim C1.  When neither a newline nor a sentence boundary is found, the specification
  has split_title return the trimmed text and an empty body, so that a text of
  whitespace alone gives two empty strings.  The function returns the text as it is on
  that path: on three spaces the title is the three spaces, although their trimmed form
  is empty.
\<close>

theorem split_title_whitespace_only:
  "split_title (lit ''   '') = (lit ''   '', []) \<and> strip (lit ''   '') = []"
  by (simp add: split_title_eval)

text \<open>
  Claim C2.  A newline in the text wins over punctuation and the text is cut just after
  it.  The position of the newline is found in the text without its leading whitespace
  and then used in the text with it: after two leading spaces the cut falls two
  characters early, inside the first line.  Without leading whitespace the cut is at the
  newline, as in the example of the specification.
\<close>

theorem split_title_leading_space_newline:
  "split_title (lit ''  Line one'' @ [10] @ lit ''Line two'') =
     (lit ''Line on'', lit ''e'' @ [10] @ lit ''Line two'') \<and>
   split_title (lit ''Line one'' @ [10] @ lit ''Line two'') = (lit ''Line one'', lit ''Line two'')"
  by (simp add: split_title_eval)

text \<open>
  Claim C4.  The pattern SENTENCE_SPLITTER matches at a position of a text exactly when
  the text there reads: a terminal punctuation character, optionally one closing quote,
  optionally closing brackets, and one or more whitespace characters.  The whitespace is
  required, so nothing in 3.14 is a boundary, and "Hello world. Foo bar." is split after
  its first sentence.
\<close>

theorem sentence_boundary_iff:
  "(match_at SENTENCE_SPLITTER (drop i text) \<noteq> None \<longleftrightarrow> boundary_spec text i) \<and>
   (search SENTENCE_SPLITTER text = None \<longleftrightarrow> (\<forall>i. \<not> boundary_spec text i)) \<and>
   search SENTENCE_SPLITTER (lit ''3.14'') = None \<and>
   split_title (lit ''Hello world. Foo bar.'') = (lit ''Hello world.'', lit ''Foo bar.'')"
proof (intro conjI)
  show "match_at SENTENCE_SPLITTER (drop i text) \<noteq> None \<longleftrightarrow> boundary_spec text i"
    by (rule boundary_match)
  show "search SENTENCE_SPLITTER text = None \<longleftrightarrow> (\<forall>i. \<not> boundary_spec text i)"
    by (rule search_no_boundary)
  show "search SENTENCE_SPLITTER (lit ''3.14'') = None"
    by (simp add: split_title_eval)
  show "split_title (lit ''Hello world. Foo bar.'') = (lit ''Hello world.'', lit ''Foo bar.'')"
    by (simp add: split_title_eval)
qed

section \<open>Results on colorize and highlight_tags_with_background_color\<close>

lemmas highlight_eval =
  re_split_def tag_regex_spec_def tag_continuation_def punctuation_def whitespace_def
  seg_text_def search_def lit_def is_space_def upt_rec re_scan.simps

lemmas render_eval =
  render_fragments_def no_leading_space_def first_char_def endswith_newline_def
  punctuation_def whitespace_def lstrip_def is_space_def upt_rec lit_def

subsection \<open>colorize\<close>

text \<open>
  Claim C9.  colorize returns the string as it is when the upper-cased colour name is
  not an attribute of colorama.Fore (the name NONE is the usual case) or names an empty
  escape; otherwise the result is the string between the colour escape and the reset
  marker, with the bright marker in front when bold.  Every path of the function returns
  a string: none raises.
\<close>

theorem colorize_degrades:
  "(Fore cm (str_upper ud color) = None \<or> Fore cm (str_upper ud color) = Some []
      \<longrightarrow> colorize cm ud string color bold = string) \<and>
   (str_upper ud color = lit ''NONE'' \<and> Fore cm (lit ''NONE'') = None
      \<longrightarrow> colorize cm ud string color bold = string) \<and>
   (\<forall>color_escape. Fore cm (str_upper ud color) = Some color_escape \<and> color_escape \<noteq> []
      \<longrightarrow> colorize cm ud string color bold =
            (if bold then Style_BRIGHT cm @ color_escape @ string @ Style_RESET_ALL cm
             else color_escape @ string @ Fore_RESET cm))"
  by (auto simp: colorize_def)

theorem colorize_degrades_witness:
  "str_upper ascii_db (lit ''none'') = lit ''NONE'' \<and>
   Fore example_colorama (lit ''NONE'') = None \<and>
   colorize example_colorama ascii_db (lit ''hi'') (lit ''none'') True = lit ''hi'' \<and>
   Fore example_colorama (str_upper ascii_db (lit ''red'')) = Some (27 # lit ''[31m'') \<and>
   colorize example_colorama ascii_db (lit ''hi'') (lit ''red'') False
     = (27 # lit ''[31m'') @ lit ''hi'' @ (27 # lit ''[39m'')"
  using colorize_degrades [of example_colorama ascii_db "lit ''none''" "lit ''hi''" True]
    colorize_degrades [of example_colorama ascii_db "lit ''red''" "lit ''hi''" False]
  by (simp add: ascii_db_def example_colorama_def lit_def)

subsection \<open>Highlighting switched off\<close>

text \<open>
  Claim C8.  When the configuration's highlight flag is false the function returns its
  text unchanged: nothing is split and nothing is coloured.
\<close>

theorem highlight_disabled:
  "\<not> highlight (journal_config entry) \<Longrightarrow>
     highlight_tags_with_background_color cm ud entry text color is_title = Inr text"
  by (simp add: highlight_tags_with_background_color_def)

theorem highlight_disabled_witness:
  "highlight_tags_with_background_color example_colorama ascii_db
     \<lparr>journal_config = example_config\<lparr>highlight := False\<rparr>, tag_regex = tag_regex_spec\<rparr>
     (lit ''met @Bob'') (lit ''red'') False = Inr (lit ''met @Bob'')"
  using highlight_disabled [of "\<lparr>journal_config = example_config\<lparr>highlight := False\<rparr>,
      tag_regex = tag_regex_spec\<rparr>" example_colorama ascii_db "lit ''met @Bob''" "lit ''red''" False]
  by (simp add: example_config_def)

subsection \<open>Fragments are never empty\<close>

lemma generator_nonempty:
  "(c, p) \<in> set (colorized_text_generator cm ud config color is_title fragments) \<Longrightarrow> p \<noteq> []"
  by (induction fragments) (auto split: if_splits)

lemma generator_on_nonempty:
  "\<forall>f \<in> set fragments. f \<noteq> [] \<Longrightarrow>
     colorized_text_generator cm ud config color is_title fragments =
       map (\<lambda>f. (colorized_fragment cm ud config color is_title f, f)) fragments"
  by (induction fragments) (auto simp: colorized_fragment_def)

lemma no_leading_space_defined:
  "piece \<noteq> [] \<Longrightarrow>
     no_leading_space config previous_piece piece =
       Inr (list_all (\<lambda>char. char \<in> set (punctuation @ whitespace)) piece \<or>
            endswith_newline previous_piece \<or>
            (previous_piece \<noteq> [] \<and> hd previous_piece \<in> set (tagsymbols config)) \<or>
            hd piece \<in> set (tagsymbols config))"
  by (cases piece) (auto simp: no_leading_space_def first_char_def)

lemma reassemble_total:
  "\<forall>(c, p) \<in> set pieces. p \<noteq> [] \<Longrightarrow>
     \<exists>final. reassemble config pieces final_text previous_piece = Inr final"
proof (induction pieces arbitrary: final_text previous_piece)
  case Nil
  then show ?case by simp
next
  case (Cons cp pieces)
  obtain c p where cp: "cp = (c, p)" by (cases cp)
  with Cons.prems have "p \<noteq> []" by simp
  then show ?case using Cons cp by (simp add: no_leading_space_defined)
qed

text \<open>
  Claim C10.  The generator drops the empty fragments, so every piece that reaches the
  loop is non-empty; the loop's condition, which reads the first character of the piece,
  is then defined, and the reassembly of any list of fragments returns a text.
\<close>

theorem fragments_nonempty_total:
  "(\<forall>(colorized_piece, piece) \<in>
        set (colorized_text_generator cm ud config color is_title fragments). piece \<noteq> []) \<and>
   (\<forall>(colorized_piece, piece) \<in>
        set (colorized_text_generator cm ud config color is_title fragments).
        \<forall>previous_piece. \<exists>b. no_leading_space config previous_piece piece = Inr b) \<and>
   (\<exists>final. render_fragments cm ud config color is_title fragments = Inr final)"
proof (intro conjI)
  show ne: "\<forall>(colorized_piece, piece) \<in>
        set (colorized_text_generator cm ud config color is_title fragments). piece \<noteq> []"
    using generator_nonempty by fastforce
  then show "\<forall>(colorized_piece, piece) \<in>
        set (colorized_text_generator cm ud config color is_title fragments).
        \<forall>previous_piece. \<exists>b. no_leading_space config previous_piece piece = Inr b"
    by (auto simp: no_leading_space_defined)
  from reassemble_total [OF ne, of config "[]" "[]"]
  show "\<exists>final. render_fragments cm ud config color is_title fragments = Inr final"
    by (auto simp: render_fragments_def)
qed

theorem fragments_nonempty_total_witness:
  "[] \<notin> snd ` set (colorized_text_generator example_colorama ascii_db example_config
       (lit ''red'') False [lit ''a'', [], lit ''@b'']) \<and>
   (\<exists>final. render_fragments example_colorama ascii_db example_config (lit ''red'') False
       [lit ''a'', [], lit ''@b''] = Inr final)"
  using fragments_nonempty_total [of example_colorama ascii_db example_config "lit ''red''" False
      "[lit ''a'', [], lit ''@b'']"]
  by (simp add: example_config_def lit_def)

subsection \<open>Spacing of the reassembled fragments\<close>

lemma reassemble_joined:
  assumes "\<forall>f \<in> set fragments. f \<noteq> []"
    and "(previous = None \<and> previous_piece = []) \<or> (previous = Some previous_piece \<and> previous_piece \<noteq> [])"
  shows "reassemble config (map (\<lambda>f. (col f, f)) fragments) final_text previous_piece =
           Inr (final_text @ joined_spec col config previous fragments)"
  using assms
proof (induction fragments arbitrary: final_text previous previous_piece)
  case Nil
  then show ?case by simp
next
  case (Cons f fs)
  from Cons.prems have f: "f \<noteq> []" and fs: "\<forall>f \<in> set fs. f \<noteq> []" by simp_all
  have cond: "no_leading_space config previous_piece f = Inr (no_space_spec config previous f)"
    using Cons.prems(2) f
    by (auto simp: no_leading_space_defined no_space_spec_def endswith_newline_def)
  have step: "reassemble config (map (\<lambda>f. (col f, f)) fs) ft f =
           Inr (ft @ joined_spec col config (Some f) fs)" for ft
    using Cons.IH [OF fs, of "Some f" f ft] f by simp
  show ?case by (simp add: cond step)
qed

lemma generator_drops_empty:
  "colorized_text_generator cm ud config color is_title (filter (\<lambda>f. f \<noteq> []) fragments) =
     colorized_text_generator cm ud config color is_title fragments"
  by (induction fragments) auto

lemma render_fragments_drops_empty:
  "render_fragments cm ud config color is_title (filter (\<lambda>f. f \<noteq> []) fragments) =
     render_fragments cm ud config color is_title fragments"
  by (simp add: render_fragments_def generator_drops_empty)

text \<open>
  Claim C3.  For every list of non-empty fragments the highlighting branch returns the
  coloured fragments joined with one space before each fragment, except where the
  fragment is all punctuation and whitespace, the previous fragment ends with a newline
  or starts with a tag symbol, or the fragment starts with a tag symbol; leading
  whitespace of the result is removed.  With highlighting enabled the function returns
  this for the non-empty fragments of its text.
\<close>

theorem reassembly_spacing:
  "((\<forall>f \<in> set fragments. f \<noteq> []) \<longrightarrow>
      render_fragments cm ud config color is_title fragments =
        Inr (lstrip (joined_spec (colorized_fragment cm ud config color is_title) config
               None fragments))) \<and>
   (highlight (journal_config entry) \<longrightarrow>
      highlight_tags_with_background_color cm ud entry t color is_title =
        Inr (lstrip (joined_spec (colorized_fragment cm ud (journal_config entry) color is_title)
               (journal_config entry) None
               (filter (\<lambda>f. f \<noteq> [])
                  (re_split (tag_regex entry (tagsymbols (journal_config entry))) t)))))"
proof (intro conjI impI)
  assume ne: "\<forall>f \<in> set fragments. f \<noteq> []"
  show "render_fragments cm ud config color is_title fragments =
        Inr (lstrip (joined_spec (colorized_fragment cm ud config color is_title) config
               None fragments))"
    using reassemble_joined [OF ne, of None "[]" config
        "colorized_fragment cm ud config color is_title" "[]"]
    by (simp add: render_fragments_def generator_on_nonempty [OF ne])
next
  assume on: "highlight (journal_config entry)"
  let ?config = "journal_config entry"
  let ?fs = "filter (\<lambda>f. f \<noteq> []) (re_split (tag_regex entry (tagsymbols ?config)) t)"
  have ne: "\<forall>f \<in> set ?fs. f \<noteq> []" by simp
  have "highlight_tags_with_background_color cm ud entry t color is_title =
          render_fragments cm ud ?config color is_title ?fs"
    using on
    by (simp add: highlight_tags_with_background_color_def Let_def render_fragments_drops_empty)
  also have "\<dots> = Inr (lstrip (joined_spec (colorized_fragment cm ud ?config color is_title)
               ?config None ?fs))"
    using reassemble_joined [OF ne, of None "[]" ?config
        "colorized_fragment cm ud ?config color is_title" "[]"]
    by (simp add: render_fragments_def generator_on_nonempty [OF ne])
  finally show "highlight_tags_with_background_color cm ud entry t color is_title =
        Inr (lstrip (joined_spec (colorized_fragment cm ud ?config color is_title)
               ?config None ?fs))" .
qed

lemma met_bob_fragments:
  "re_split (tag_regex_spec (lit ''@#'')) (lit ''met @Bob.'') = [lit ''met '', lit ''@Bob'', lit ''.'']"
  by (simp add: highlight_eval)

lemma met_bob_joined:
  "Inr (lstrip (joined_spec
          (colorized_fragment example_colorama ascii_db example_config (lit ''none'') False)
          example_config None [lit ''met '', lit ''@Bob'', lit ''.'']))
     = (Inr (lit ''met @Bob.'') :: py_error + str)"
  by (simp add: example_config_def example_colorama_def ascii_db_def lit_def
      colorized_fragment_def no_space_spec_def colorize_def punctuation_def whitespace_def
      lstrip_def is_space_def upt_rec)

theorem reassembly_spacing_witness:
  "render_fragments example_colorama ascii_db example_config (lit ''none'') False
     [lit ''see'', lit ''@Bob'', lit ''now'', lit ''.'', lit ''x'' @ [10], lit ''y''] =
     Inr (lit ''see@Bobnow. x'' @ [10] @ lit ''y'') \<and>
   highlight_tags_with_background_color example_colorama ascii_db
     \<lparr>journal_config = example_config, tag_regex = tag_regex_spec\<rparr>
     (lit ''met @Bob.'') (lit ''none'') False = Inr (lit ''met @Bob.'')"
proof
  show "render_fragments example_colorama ascii_db example_config (lit ''none'') False
     [lit ''see'', lit ''@Bob'', lit ''now'', lit ''.'', lit ''x'' @ [10], lit ''y''] =
     Inr (lit ''see@Bobnow. x'' @ [10] @ lit ''y'')"
    using reassembly_spacing [where fragments = "[lit ''see'', lit ''@Bob'', lit ''now'',
        lit ''.'', lit ''x'' @ [10], lit ''y'']" and cm = example_colorama and ud = ascii_db
        and config = example_config and color = "lit ''none''" and is_title = False,
        THEN conjunct1]
    by (simp add: example_config_def example_colorama_def ascii_db_def lit_def
      colorized_fragment_def no_space_spec_def colorize_def punctuation_def whitespace_def
      lstrip_def is_space_def upt_rec)
next
  let ?entry = "\<lparr>journal_config = example_config, tag_regex = tag_regex_spec\<rparr>"
  have cfg: "journal_config ?entry = example_config" by simp
  have on: "highlight (journal_config ?entry)" by (simp add: example_config_def)
  have fs: "filter (\<lambda>f. f \<noteq> [])
              (re_split (tag_regex ?entry (tagsymbols example_config)) (lit ''met @Bob.''))
            = [lit ''met '', lit ''@Bob'', lit ''.'']"
  proof -
    have "tagsymbols example_config = lit ''@#''" by (simp add: example_config_def)
    then show ?thesis by (simp add: met_bob_fragments) (simp add: lit_def)
  qed
  from reassembly_spacing [where entry = ?entry and cm = example_colorama and ud = ascii_db
        and t = "lit ''met @Bob.''" and color = "lit ''none''" and is_title = False,
        THEN conjunct2, THEN mp, OF on]
  show "highlight_tags_with_background_color example_colorama ascii_db ?entry
     (lit ''met @Bob.'') (lit ''none'') False = Inr (lit ''met @Bob.'')"
    by (simp only: cfg fs met_bob_joined)
qed

subsection \<open>The split into fragments\<close>

lemma re_scan_concat: "concat (map seg_text (re_scan r acc s)) = acc @ s"
proof (induction r acc s rule: re_scan.induct)
  case (1 r acc s)
  show ?case
  proof (cases "search r s")
    case None
    then show ?thesis by (simp add: re_scan.simps [of r acc s] seg_text_def)
  next
    case (Some be)
    obtain b e where be: "be = (b, e)" by (cases be)
    from Some be have bounds: "b \<le> e" "e \<le> length s" using search_bounds by blast+
    show ?thesis
    proof (cases "b < e")
      case True
      have "take b s @ take (e - b) (drop b s) @ drop e s = s"
        using bounds by (metis append_take_drop_id drop_drop le_add_diff_inverse2 add.commute)
      then show ?thesis
        using "1.IH"(1) [OF Some be [symmetric] True] Some be True
        by (simp add: re_scan.simps [of r acc s] seg_text_def)
    next
      case False
      show ?thesis
      proof (cases "drop b s")
        case Nil
        then show ?thesis using Some be False
          by (simp add: re_scan.simps [of r acc s] seg_text_def)
      next
        case (Cons c cs)
        have "take b s @ c # cs = s" using Cons by (metis append_take_drop_id)
        then show ?thesis
          using "1.IH"(2) [OF Some be [symmetric] False Cons] Some be False Cons
          by (simp add: re_scan.simps [of r acc s] seg_text_def)
      qed
    qed
  qed
qed

lemma generator_originals:
  "concat (map snd (colorized_text_generator cm ud config color is_title fragments)) = concat fragments"
  by (induction fragments) auto

text \<open>
  Claim C6.  The fragments that the split at the tag pattern produces, concatenated in
  order, are the text again; so are the pieces that remain once the empty fragments
  have been dropped.
\<close>

theorem fragments_reconstruct_text:
  "concat (re_split (tag_regex_spec symbols) text) = text \<and>
   concat (map snd (colorized_text_generator cm ud config color is_title
             (re_split (tag_regex_spec symbols) text))) = text"
  by (simp add: generator_originals re_split_def re_scan_concat)

lemma example_fragments:
  "re_split (tag_regex_spec (lit ''@#'')) (lit ''Called my friend @Bob about #project-x.'') =
     [lit ''Called my friend '', lit ''@Bob'', lit '' about '', lit ''#project-x'', lit ''.'']"
  by (simp add: highlight_eval)

text \<open>
  Claim C5, as stated.  The fragments of "Called my friend @Bob about #project-x." are
  not the five trimmed strings the claim lists; and were they the fragments, the loop
  would put no space before "@Bob", "about" or "#project-x", since it adds none before
  a tag nor after one.
\<close>

theorem highlight_example_counterexample:
  "re_split (tag_regex_spec (lit ''@#'')) (lit ''Called my friend @Bob about #project-x.'') \<noteq>
     [lit ''Called my friend'', lit ''@Bob'', lit ''about'', lit ''#project-x'', lit ''.''] \<and>
   render_fragments example_colorama ascii_db example_config (lit ''none'') False
     [lit ''Called my friend'', lit ''@Bob'', lit ''about'', lit ''#project-x'', lit ''.''] =
     Inr (lit ''Called my friend@Bobabout#project-x.'')"
proof
  show "re_split (tag_regex_spec (lit ''@#'')) (lit ''Called my friend @Bob about #project-x.'') \<noteq>
     [lit ''Called my friend'', lit ''@Bob'', lit ''about'', lit ''#project-x'', lit ''.'']"
    unfolding example_fragments by (simp add: lit_def)
  show "render_fragments example_colorama ascii_db example_config (lit ''none'') False
     [lit ''Called my friend'', lit ''@Bob'', lit ''about'', lit ''#project-x'', lit ''.''] =
     Inr (lit ''Called my friend@Bobabout#project-x.'')"
    by (simp add: render_eval example_config_def example_colorama_def ascii_db_def colorize_def)
qed

text \<open>
  Claim C5, amended.  With the tag symbols @ and # the text
  "Called my friend @Bob about #project-x." is split into "Called my friend ", "@Bob",
  " about ", "#project-x" and ".": the plain fragments keep the spaces next to the
  tags.  The loop adds one space, before the first fragment, which the final lstrip
  removes when it still leads the result; the other spaces of the result are those of
  the fragments.  Without colours the result is the text itself, with one space before
  "@Bob", "about" and "#project-x" and none before the period.
\<close>

theorem highlight_example:
  "re_split (tag_regex_spec (lit ''@#'')) (lit ''Called my friend @Bob about #project-x.'') =
     [lit ''Called my friend '', lit ''@Bob'', lit '' about '', lit ''#project-x'', lit ''.''] \<and>
   highlight_tags_with_background_color cm ud
     \<lparr>journal_config = \<lparr>highlight = True, tagsymbols = lit ''@#'', colors_tags = tags_color\<rparr>,
      tag_regex = tag_regex_spec\<rparr>
     (lit ''Called my friend @Bob about #project-x.'') color is_title =
     Inr (lstrip ([32] @ colorize cm ud (lit ''Called my friend '') color is_title
            @ colorize cm ud (lit ''@Bob'') tags_color True
            @ colorize cm ud (lit '' about '') color is_title
            @ colorize cm ud (lit ''#project-x'') tags_color True
            @ colorize cm ud (lit ''.'') color is_title)) \<and>
   highlight_tags_with_background_color example_colorama ascii_db
     \<lparr>journal_config = example_config, tag_regex = tag_regex_spec\<rparr>
     (lit ''Called my friend @Bob about #project-x.'') (lit ''none'') False =
     Inr (lit ''Called my friend @Bob about #project-x.'')"
proof (intro conjI)
  show "re_split (tag_regex_spec (lit ''@#'')) (lit ''Called my friend @Bob about #project-x.'') =
     [lit ''Called my friend '', lit ''@Bob'', lit '' about '', lit ''#project-x'', lit ''.'']"
    by (rule example_fragments)
  show "highlight_tags_with_background_color cm ud
     \<lparr>journal_config = \<lparr>highlight = True, tagsymbols = lit ''@#'', colors_tags = tags_color\<rparr>,
      tag_regex = tag_regex_spec\<rparr>
     (lit ''Called my friend @Bob about #project-x.'') color is_title =
     Inr (lstrip ([32] @ colorize cm ud (lit ''Called my friend '') color is_title
            @ colorize cm ud (lit ''@Bob'') tags_color True
            @ colorize cm ud (lit '' about '') color is_title
            @ colorize cm ud (lit ''#project-x'') tags_color True
            @ colorize cm ud (lit ''.'') color is_title))"
    unfolding highlight_tags_with_background_color_def
    by (simp add: example_fragments)
      (simp add: render_fragments_def no_leading_space_def first_char_def endswith_newline_def
        punctuation_def whitespace_def upt_rec lit_def)
  show "highlight_tags_with_background_color example_colorama ascii_db
     \<lparr>journal_config = example_config, tag_regex = tag_regex_spec\<rparr>
     (lit ''Called my friend @Bob about #project-x.'') (lit ''none'') False =
     Inr (lit ''Called my friend @Bob about #project-x.'')"
    unfolding highlight_tags_with_background_color_def
    by (simp add: example_fragments example_config_def)
      (simp add: render_eval example_colorama_def ascii_db_def colorize_def)
qed

section \<open>Results on slugify\<close>

subsection \<open>The substitutions on one character class\<close>

lemma collapse_none: "\<forall>c \<in> set s. \<not> P c \<Longrightarrow> collapse P repl s = s"
  by (induction s) auto

lemma collapse_skip:
  "collapse P repl s = takeWhile (\<lambda>c. \<not> P c) s @ collapse P repl (dropWhile (\<lambda>c. \<not> P c) s)"
  by (induction s) auto

lemma filter_skip:
  "filter (\<lambda>c. \<not> P c) s =
     takeWhile (\<lambda>c. \<not> P c) s @ filter (\<lambda>c. \<not> P c) (drop 1 (dropWhile (\<lambda>c. \<not> P c) s))"
  by (induction s) auto

lemma re_scan_single:
  assumes m: "\<And>t. match_at r t = (case t of [] \<Rightarrow> None | c # _ \<Rightarrow> if P c then Some (m t) else None)"
    and pos: "\<And>t. t \<noteq> [] \<Longrightarrow> P (hd t) \<Longrightarrow> 0 < m t \<and> m t \<le> length t"
    and ex: "\<exists>c \<in> set s. P c"
  shows "re_scan r acc s =
           Plain (acc @ takeWhile (\<lambda>c. \<not> P c) s)
             # Matched (take (m (dropWhile (\<lambda>c. \<not> P c) s)) (dropWhile (\<lambda>c. \<not> P c) s))
             # re_scan r [] (drop (m (dropWhile (\<lambda>c. \<not> P c) s)) (dropWhile (\<lambda>c. \<not> P c) s))"
proof -
  let ?Q = "\<lambda>c. \<not> P c"
  let ?t = "dropWhile ?Q s"
  from ex have t: "?t \<noteq> []" by (simp add: dropWhile_eq_Nil_conv)
  then have "P (hd ?t)" using hd_dropWhile [of ?Q s] by simp
  with t have mt: "0 < m ?t" using pos by blast
  have "take (length (takeWhile ?Q s)) s = takeWhile ?Q s"
    by (simp add: takeWhile_eq_take [symmetric])
  moreover have "drop (length (takeWhile ?Q s)) s = ?t"
    by (simp add: dropWhile_eq_drop [symmetric])
  moreover have "drop (length (takeWhile ?Q s) + m ?t) s = drop (m ?t) ?t"
    by (simp add: dropWhile_eq_drop add.commute)
  ultimately show ?thesis
    using ex mt by (simp add: re_scan.simps [of r acc s] search_single [of r P m, OF m])
qed

lemma re_scan_single_none:
  assumes m: "\<And>t. match_at r t = (case t of [] \<Rightarrow> None | c # _ \<Rightarrow> if P c then Some (m t) else None)"
    and ex: "\<not> (\<exists>c \<in> set s. P c)"
  shows "re_scan r acc s = [Plain (acc @ s)]"
  using ex by (simp add: re_scan.simps [of r acc s] search_single [of r P m, OF m])

lemma re_sub_One: "re_sub [(P, One)] [] s = filter (\<lambda>c. \<not> P c) s"
proof -
  let ?Q = "\<lambda>c. \<not> P c"
  have "concat (map (\<lambda>g. case g of Plain u \<Rightarrow> u | Matched m \<Rightarrow> []) (re_scan [(P, One)] acc s))
          = acc @ filter ?Q s" for acc
  proof (induction "length s" arbitrary: acc s rule: less_induct)
    case less
    show ?case
    proof (cases "\<exists>c \<in> set s. P c")
      case False
      then have "filter ?Q s = s" by (simp add: filter_id_conv)
      then show ?thesis
        using re_scan_single_none [of "[(P, One)]" P "\<lambda>_. 1" s acc, OF match_at_One False]
        by simp
    next
      case True
      let ?t = "dropWhile ?Q s"
      have t: "?t \<noteq> []" using True by (simp add: dropWhile_eq_Nil_conv)
      have "length (drop 1 ?t) < length s"
        using t length_dropWhile_le [of ?Q s] by (cases ?t) auto
      from less [OF this, of "[]"]
      have "concat (map (\<lambda>g. case g of Plain u \<Rightarrow> u | Matched m \<Rightarrow> [])
              (re_scan [(P, One)] [] (drop 1 ?t))) = filter ?Q (drop 1 ?t)"
        by simp
      moreover have "re_scan [(P, One)] acc s =
           Plain (acc @ takeWhile ?Q s) # Matched (take 1 ?t) # re_scan [(P, One)] [] (drop 1 ?t)"
        by (rule re_scan_single [of "[(P, One)]" P "\<lambda>_. 1", OF match_at_One _ True])
          (auto simp: Suc_le_eq)
      ultimately show ?thesis
        using filter_skip [of P s] by simp
    qed
  qed
  from this [of "[]"] show ?thesis by (simp add: re_sub_def)
qed

lemma re_sub_Plus: "re_sub [(P, Plus)] repl s = collapse P repl s"
proof -
  let ?Q = "\<lambda>c. \<not> P c"
  let ?m = "\<lambda>t. length (takeWhile P t)"
  have "concat (map (\<lambda>g. case g of Plain u \<Rightarrow> u | Matched m \<Rightarrow> repl) (re_scan [(P, Plus)] acc s))
          = acc @ collapse P repl s" for acc
  proof (induction "length s" arbitrary: acc s rule: less_induct)
    case less
    show ?case
    proof (cases "\<exists>c \<in> set s. P c")
      case False
      then have "collapse P repl s = s" by (simp add: collapse_none)
      then show ?thesis
        using re_scan_single_none [of "[(P, Plus)]" P ?m s acc, OF match_at_Plus False]
        by simp
    next
      case True
      let ?t = "dropWhile ?Q s"
      have t: "?t \<noteq> []" using True by (simp add: dropWhile_eq_Nil_conv)
      then have Pt: "P (hd ?t)" using hd_dropWhile [of ?Q s] by simp
      have d: "drop (?m ?t) ?t = dropWhile P ?t" by (simp add: dropWhile_eq_drop)
      have "length (dropWhile P ?t) < length s"
        using t Pt length_dropWhile_le [of ?Q s] length_dropWhile_le [of P "tl ?t"]
        by (cases ?t) auto
      from less [OF this, of "[]"]
      have "concat (map (\<lambda>g. case g of Plain u \<Rightarrow> u | Matched m \<Rightarrow> repl)
              (re_scan [(P, Plus)] [] (dropWhile P ?t))) = collapse P repl (dropWhile P ?t)"
        by simp
      moreover have "re_scan [(P, Plus)] acc s =
           Plain (acc @ takeWhile ?Q s) # Matched (take (?m ?t) ?t)
             # re_scan [(P, Plus)] [] (drop (?m ?t) ?t)"
      proof (rule re_scan_single [of "[(P, Plus)]" P ?m, OF match_at_Plus _ True])
        fix u :: str assume "u \<noteq> []" "P (hd u)"
        then show "0 < length (takeWhile P u) \<and> length (takeWhile P u) \<le> length u"
          by (cases u) (auto simp: length_takeWhile_le)
      qed
      moreover have "collapse P repl ?t = repl @ collapse P repl (dropWhile P ?t)"
        using t Pt by (cases ?t) auto
      ultimately show ?thesis
        using collapse_skip [of P repl s] d by simp
    qed
  qed
  from this [of "[]"] show ?thesis by (simp add: re_sub_def)
qed

subsection \<open>Idempotence\<close>

lemma collapse_set:
  "c \<in> set (collapse P [h] s) \<Longrightarrow> c = h \<or> (c \<in> set s \<and> \<not> P c)"
proof (induction P "[h]" s rule: collapse.induct)
  case (1 P)
  then show ?case by simp
next
  case (2 P d ds)
  then show ?case by (auto split: if_splits dest: set_dropWhileD)
qed

lemma collapse_head:
  "t = [] \<or> \<not> P (hd t) \<Longrightarrow> dropWhile P (collapse P repl t) = collapse P repl t"
  by (cases t) auto

lemma collapse_idem:
  "P h \<Longrightarrow> collapse P [h] (collapse P [h] s) = collapse P [h] s"
proof (induction P "[h]" s rule: collapse.induct)
  case (1 P)
  then show ?case by simp
next
  case (2 P c cs)
  show ?case
  proof (cases "P c")
    case True
    have "dropWhile P cs = [] \<or> \<not> P (hd (dropWhile P cs))"
      using hd_dropWhile [of P cs] by blast
    then have "dropWhile P (collapse P [h] (dropWhile P cs)) = collapse P [h] (dropWhile P cs)"
      by (rule collapse_head)
    then show ?thesis using True 2 by simp
  next
    case False
    then show ?thesis using 2 by simp
  qed
qed

lemma strip_no_space: "\<forall>c \<in> set s. \<not> is_space c \<Longrightarrow> strip s = s"
proof -
  assume a: "\<forall>c \<in> set s. \<not> is_space c"
  have "dropWhile is_space t = t" if "\<forall>c \<in> set t. \<not> is_space c" for t
    using that by (cases t) auto
  from this [of s] this [of "rev s"] a show ?thesis
    by (simp add: strip_def lstrip_def rstrip_def)
qed

lemma slugify_collapse:
  "slugify ud x =
     collapse (\<lambda>c. c = 45 \<or> is_space c) [45]
       (str_lower ud
          (strip (filter (\<lambda>c. is_word ud c \<or> is_space c \<or> c = 45) (normalize_NFKD ud x))))"
  by (simp add: slugify_def re_sub_One re_sub_Plus)

lemma slugify_chars:
  assumes "unicode_ok ud" and "c \<in> set (slugify ud x)"
  shows "slug_char ud c \<and> \<not> is_space c"
proof -
  let ?l = "str_lower ud
          (strip (filter (\<lambda>c. is_word ud c \<or> is_space c \<or> c = 45) (normalize_NFKD ud x)))"
  from assms(2) have "c = 45 \<or> (c \<in> set ?l \<and> \<not> (c = 45 \<or> is_space c))"
    unfolding slugify_collapse by (rule collapse_set)
  moreover have "\<not> is_space 45" by (simp add: is_space_def)
  moreover have "list_all (\<lambda>c. is_space c \<or> slug_char ud c) ?l"
    using assms(1) unfolding unicode_ok_def by blast
  ultimately show ?thesis by (auto simp: list_all_iff slug_char_def)
qed

lemma slugify_fixed:
  assumes ok: "unicode_ok ud"
  shows "slugify ud (slugify ud x) = slugify ud x"
proof -
  let ?s = "slugify ud x"
  have chars: "\<forall>c \<in> set ?s. slug_char ud c \<and> \<not> is_space c"
    using slugify_chars [OF ok] by blast
  then have "list_all (slug_char ud) ?s" by (simp add: list_all_iff)
  with ok have fixed: "normalize_NFKD ud ?s = ?s" "str_lower ud ?s = ?s"
    unfolding unicode_ok_def by blast+
  have keep: "filter (\<lambda>c. is_word ud c \<or> is_space c \<or> c = 45) ?s = ?s"
    using chars by (auto simp: filter_id_conv slug_char_def)
  have strip: "strip ?s = ?s" using chars by (simp add: strip_no_space)
  have "collapse (\<lambda>c. c = 45 \<or> is_space c) [45] ?s = ?s"
    unfolding slugify_collapse [of ud x] by (rule collapse_idem) simp
  then show ?thesis
    unfolding slugify_collapse [of ud ?s] fixed keep strip .
qed

lemma slugify_hello:
  assumes "unicode_hello ud"
  shows "slugify ud hello = lit ''hello-world''"
proof -
  from assms have n: "normalize_NFKD ud hello =
      [72, 101, 769, 108, 108, 111, 44, 32, 87, 111, 114, 108, 100, 33]"
    and w: "list_all (isalnum ud) (lit ''HelloWorld'')"
      "\<not> isalnum ud 769" "\<not> isalnum ud 44" "\<not> isalnum ud 33"
    and l: "str_lower ud (lit ''Hello World'') = lit ''hello world''"
    unfolding unicode_hello_def by blast+
  have "filter (\<lambda>c. is_word ud c \<or> is_space c \<or> c = 45) (normalize_NFKD ud hello)
          = lit ''Hello World''"
    unfolding n using w by (simp add: lit_def is_word_def is_space_def)
  moreover have "strip (lit ''Hello World'') = lit ''Hello World''"
    by (simp add: strip_def lstrip_def rstrip_def lit_def is_space_def)
  ultimately show ?thesis
    unfolding slugify_collapse l by (simp add: l) (simp add: lit_def is_space_def)
qed

text \<open>
  Claim C7.  slugify applied to a slug returns the slug, for every text, when the
  Unicode tables have the two properties of \<open>unicode_ok\<close>.  The slug of
  "Hello, World!" written with U+00E9 for its second letter is "hello-world" when the
  tables decompose U+00E9 into e and the combining acute accent, count the ASCII letters
  but neither the accent, the comma nor the exclamation mark as alphanumeric, and
  lowercase "Hello World" as expected.
\<close>

theorem slugify_idempotent:
  "(unicode_ok ud \<longrightarrow> slugify ud (slugify ud x) = slugify ud x) \<and>
   (unicode_hello ud \<longrightarrow> slugify ud hello = lit ''hello-world'')"
  using slugify_fixed slugify_hello by blast

lemma ascii_db_fixed:
  assumes "\<forall>c \<in> set s. c \<noteq> 233 \<and> \<not> (65 \<le> c \<and> c \<le> 90)"
  shows "normalize_NFKD ascii_db s = s \<and> str_lower ascii_db s = s"
  using assms by (induction s) (auto simp: ascii_db_def)

lemma ascii_db_settled:
  "settled ascii_db c \<longleftrightarrow> c \<noteq> 233 \<and> \<not> (65 \<le> c \<and> c \<le> 90)"
  by (auto simp: settled_def ascii_db_def)

lemma is_word_ascii_db:
  "is_word ascii_db c \<longleftrightarrow>
     (48 \<le> c \<and> c \<le> 57) \<or> (65 \<le> c \<and> c \<le> 90) \<or> (97 \<le> c \<and> c \<le> 122) \<or> c = 95"
  by (simp add: is_word_def ascii_db_def)

lemma set_strip: "set (strip s) \<subseteq> set s"
proof -
  have "set (dropWhile is_space t) \<subseteq> set t" for t
    by (auto dest: set_dropWhileD)
  from this [of "rev (dropWhile is_space s)"] this [of s] show ?thesis
    unfolding strip_def lstrip_def rstrip_def
    by (metis (no_types, lifting) order_trans set_rev)
qed

lemma unicode_ok_ascii_db: "unicode_ok ascii_db"
  unfolding unicode_ok_def
proof (intro conjI allI impI)
  fix s assume "list_all (slug_char ascii_db) s"
  then have "\<forall>c \<in> set s. c \<noteq> 233 \<and> \<not> (65 \<le> c \<and> c \<le> 90)"
    by (auto simp: list_all_iff slug_char_def ascii_db_settled)
  then show "normalize_NFKD ascii_db s = s" "str_lower ascii_db s = s"
    using ascii_db_fixed by blast+
next
  fix x
  let ?k = "strip (filter (\<lambda>c. is_word ascii_db c \<or> is_space c \<or> c = 45)
              (normalize_NFKD ascii_db x))"
  have k: "\<forall>c \<in> set ?k. is_word ascii_db c \<or> is_space c \<or> c = 45"
    using set_strip by fastforce
  have "is_space d \<or> slug_char ascii_db d" if "d \<in> set (str_lower ascii_db ?k)" for d
  proof -
    from that obtain c where c: "c \<in> set ?k" and d: "d = (if 65 \<le> c \<and> c \<le> 90 then c + 32 else c)"
      by (auto simp: ascii_db_def)
    from k c have "is_word ascii_db c \<or> is_space c \<or> c = 45" by blast
    then show ?thesis unfolding d
      by (auto simp: slug_char_def ascii_db_settled is_word_ascii_db is_space_def)
  qed
  then show "list_all (\<lambda>c. is_space c \<or> slug_char ascii_db c) (str_lower ascii_db ?k)"
    by (simp add: list_all_iff)
qed

lemma unicode_hello_ascii_db: "unicode_hello ascii_db"
  by (simp add: unicode_hello_def hello_def ascii_db_def lit_def)

theorem slugify_idempotent_witness:
  "unicode_ok ascii_db \<and> unicode_hello ascii_db \<and>
   slugify ascii_db (slugify ascii_db hello) = slugify ascii_db hello \<and>
   slugify ascii_db hello = lit ''hello-world''"
  using slugify_idempotent [of ascii_db hello] unicode_ok_ascii_db unicode_hello_ascii_db
  by blast

end
